theory Spec2Isabelle
  imports Main "HOL-Library.AList"
begin

section \<open>Text and container primitives of the server script\<close>

text \<open>
  The focus-mode server is a Node.js script.  Its text values are modelled as \<open>string\<close>
  (a list of 8-bit code units), its numbers as mathematical integers (exact for the
  safe-integer range of a JavaScript number), a \<open>Set\<close> as the list of its members in
  insertion order, and a plain object used as a dictionary as an association list in key
  insertion order.  The keys the script stores are always of the form \<open>project-...\<close>; a
  lookup with a key that names a property inherited from the object prototype is outside
  the model.
\<close>

type_synonym 'v jsobject = "(string \<times> 'v) list"

definition set_add :: "'a \<Rightarrow> 'a list \<Rightarrow> 'a list" where
  "set_add x xs = (if x \<in> set xs then xs else xs @ [x])"

definition set_has :: "'a list \<Rightarrow> 'a \<Rightarrow> bool" where
  "set_has xs x = (x \<in> set xs)"



definition isDigit :: "char \<Rightarrow> bool" where
  "isDigit c = (c \<in> set ''0123456789'')"





fun stripPrefix :: "string \<Rightarrow> string \<Rightarrow> string option" where
  "stripPrefix [] s = Some s"
| "stripPrefix (p # ps) [] = None"
| "stripPrefix (p # ps) (c # cs) = (if p = c then stripPrefix ps cs else None)"


definition digitChar :: "nat \<Rightarrow> char" where
  "digitChar d = ''0123456789'' ! d"

function numToString :: "nat \<Rightarrow> string" where
  "numToString n =
     (if n < 10 then [digitChar n]
      else numToString (n div 10) @ [digitChar (n mod 10)])"
  by pat_completeness auto
termination
  by (relation "measure id") auto

declare numToString.simps [simp del]




definition padStart :: "nat \<Rightarrow> char \<Rightarrow> string \<Rightarrow> string" where
  "padStart n c s = replicate (n - length s) c @ s"

section \<open>The project registry\<close>

definition projectName :: "nat \<Rightarrow> string" where
  "projectName i = ''project-'' @ padStart 3 (CHR ''0'') (numToString i)"

definition allProjects :: "string list" where
  "allProjects = map projectName [1..<101]"

section \<open>ConfigStore: readConfig and writeConfig\<close>







section \<open>GraphBuilder: buildGraph\<close>

record dep_maps =
  depMap :: "string list jsobject"
  reverseDepMap :: "string list jsobject"


text \<open>The pattern \<open>/focusedDep\(':project-(\d+)'/\<close> anchored at the head of the text; the result
  is capture group 1 and the text after the match.\<close>

definition matchDepAt :: "string \<Rightarrow> (string \<times> string) option" where
  "matchDepAt s =
     (case stripPrefix ''focusedDep(':project-'' s of
        None \<Rightarrow> None
      | Some r \<Rightarrow>
          (let ds = takeWhile isDigit r
           in if ds = [] then None
              else (case stripPrefix [CHR 0x27] (dropWhile isDigit r) of
                      None \<Rightarrow> None
                    | Some rest \<Rightarrow> Some (ds, rest))))"

lemma stripPrefix_length: "stripPrefix p s = Some r \<Longrightarrow> length r \<le> length s"
  by (induction p s rule: stripPrefix.induct) (auto split: if_splits)

lemma matchDepAt_shorter: "matchDepAt s = Some (ds, rest) \<Longrightarrow> length rest < length s"
proof -
  assume m: "matchDepAt s = Some (ds, rest)"
  then obtain r where r: "stripPrefix ''focusedDep(':project-'' s = Some r"
    and ds: "takeWhile isDigit r \<noteq> []"
    and rest: "stripPrefix [CHR 0x27] (dropWhile isDigit r) = Some rest"
    by (auto simp: matchDepAt_def Let_def split: option.splits if_splits)
  have "length rest \<le> length (dropWhile isDigit r)"
    using rest by (rule stripPrefix_length)
  moreover have "length (dropWhile isDigit r) < length r"
    using ds by (cases r) (auto simp: length_dropWhile_le less_Suc_eq_le split: if_splits)
  moreover have "length r \<le> length s"
    using r by (rule stripPrefix_length)
  ultimately show ?thesis by simp
qed

text \<open>\<open>content.matchAll(...)\<close> with the global flag: the matches from left to right, each search
  resuming where the previous match ended.\<close>

function matchAllDeps :: "string \<Rightarrow> string list" where
  "matchAllDeps [] = []"
| "matchAllDeps (c # cs) =
     (case matchDepAt (c # cs) of
        Some (ds, rest) \<Rightarrow> ds # matchAllDeps rest
      | None \<Rightarrow> matchAllDeps cs)"
  by pat_completeness auto
termination
proof (relation "measure length")
  show "wf (measure length)" by simp
next
  fix c cs x2 x y
  assume "matchDepAt (c # cs) = Some x2" and "(x, y) = x2"
  then have "matchDepAt (c # cs) = Some (x, y)" by simp
  then show "(y, c # cs) \<in> measure length"
    by (auto dest: matchDepAt_shorter)
next
  fix c :: char and cs :: string
  show "(cs, c # cs) \<in> measure length" by simp
qed

definition pushDependent :: "string \<Rightarrow> string \<Rightarrow> string list jsobject \<Rightarrow> string list jsobject" where
  "pushDependent proj dep rmap =
     (let cur = (case map_of rmap dep of None \<Rightarrow> [] | Some ds \<Rightarrow> ds)
      in AList.update dep (cur @ [proj]) rmap)"

text \<open>The file system is read through \<open>manifest\<close>: the content of a project's
  \<open>build.gradle\<close>, or \<open>None\<close> when the file does not exist.\<close>

definition buildProject :: "(string \<Rightarrow> string option) \<Rightarrow> string \<Rightarrow> dep_maps \<Rightarrow> dep_maps" where
  "buildProject manifest proj g =
     (case manifest proj of
        Some content \<Rightarrow>
          (let deps = map (\<lambda>d. ''project-'' @ padStart 3 (CHR ''0'') d) (matchAllDeps content)
           in \<lparr>depMap = AList.update proj deps (depMap g),
               reverseDepMap = fold (pushDependent proj) deps (reverseDepMap g)\<rparr>)
      | None \<Rightarrow> \<lparr>depMap = AList.update proj [] (depMap g), reverseDepMap = reverseDepMap g\<rparr>)"

definition buildMaps :: "(string \<Rightarrow> string option) \<Rightarrow> dep_maps" where
  "buildMaps manifest = fold (buildProject manifest) allProjects \<lparr>depMap = [], reverseDepMap = []\<rparr>"


section \<open>ReachabilityEngine: computeIncluded and addDependents\<close>

definition dependentsOf :: "string list jsobject \<Rightarrow> string \<Rightarrow> string list" where
  "dependentsOf rmap proj = (case map_of rmap proj of Some ds \<Rightarrow> ds | None \<Rightarrow> [])"

function addDependents ::
  "string list jsobject \<Rightarrow> string \<Rightarrow> int \<Rightarrow> string list \<times> string list \<Rightarrow> string list \<times> string list" where
  "addDependents rmap proj hops (included, visited) =
     (if hops < 0 \<or> set_has visited proj then (included, visited)
      else
        let visited1 = set_add proj visited;
            dependents = dependentsOf rmap proj
        in if hops > 0
           then fold (\<lambda>dep (inc, vis).
                        if \<not> set_has inc dep
                        then addDependents rmap dep (hops - 1) (set_add dep inc, vis)
                        else (inc, vis))
                     dependents (included, visited1)
           else (included, visited1))"
  by pat_completeness auto
termination
  by (relation "measure (\<lambda>(r, p, h, s). nat h)") auto

text \<open>The script with the change watcher: an empty selection includes every project.\<close>

definition computeIncluded :: "string list jsobject \<Rightarrow> string list \<Rightarrow> int \<Rightarrow> string list" where
  "computeIncluded rmap focused hops =
     (if length focused = 0
      then fold (\<lambda>i inc. set_add (projectName i) inc) [1..<101] []
      else fold (\<lambda>proj inc. fst (addDependents rmap proj hops (set_add proj inc, [])))
             focused [])"

text \<open>\<open>focus-ui/server.js\<close>: the same function without the branch for an empty selection.\<close>

definition computeIncludedUi :: "string list jsobject \<Rightarrow> string list \<Rightarrow> int \<Rightarrow> string list" where
  "computeIncludedUi rmap focused hops =
     fold (\<lambda>proj inc. fst (addDependents rmap proj hops (set_add proj inc, []))) focused []"

section \<open>ChangeWatcher: checkGitChanges\<close>


record ChangeNotification =
  changedProjects :: "string list"
  included :: "string list"
  excluded :: "string list"






section \<open>Vocabulary for the graph invariant\<close>




section \<open>Vocabulary for the configuration file\<close>




section \<open>Reference reading of the hop bound\<close>

text \<open>Following the specification's words: the seeds together with every project at most
  \<open>n\<close> edges of the reverse adjacency away from a seed.\<close>

fun withinHopsSpec :: "string list jsobject \<Rightarrow> string list \<Rightarrow> nat \<Rightarrow> string list" where
  "withinHopsSpec rmap seeds 0 = seeds"
| "withinHopsSpec rmap seeds (Suc n) =
     (let r = withinHopsSpec rmap seeds n in r @ concat (map (dependentsOf rmap) r))"

section \<open>Example working trees\<close>

text \<open>Four projects: 002 and 003 depend on 001, 003 also depends on 002, 004 depends on 003.\<close>

definition manifestChain :: "string \<Rightarrow> string option" where
  "manifestChain = map_of
     [(''project-002'', ''dependencies { focusedDep(':project-001') }''),
      (''project-003'', ''dependencies { focusedDep(':project-001'); focusedDep(':project-002') }''),
      (''project-004'', ''dependencies { focusedDep(':project-003') }'')]"

text \<open>Five projects: 002 and 004 depend on 001, 003 on 002, 004 also on 003, 005 on 004.\<close>

definition manifestDetour :: "string \<Rightarrow> string option" where
  "manifestDetour = map_of
     [(''project-002'', ''dependencies { focusedDep(':project-001') }''),
      (''project-003'', ''dependencies { focusedDep(':project-002') }''),
      (''project-004'', ''dependencies { focusedDep(':project-001'); focusedDep(':project-003') }''),
      (''project-005'', ''dependencies { focusedDep(':project-004') }'')]"








section \<open>Properties of computeIncluded\<close>

lemma chain_reverseDepMap:
  "reverseDepMap (buildMaps manifestChain) =
     [(''project-001'', [''project-002'', ''project-003'']),
      (''project-002'', [''project-003'']),
      (''project-003'', [''project-004''])]"
  by code_simp

lemma detour_reverseDepMap:
  "reverseDepMap (buildMaps manifestDetour) =
     [(''project-001'', [''project-002'', ''project-004'']),
      (''project-002'', [''project-003'']),
      (''project-003'', [''project-004'']),
      (''project-004'', [''project-005''])]"
  by code_simp

text \<open>
  C1.  The claim: for a non-empty focused set and a hop bound \<open>N > 0\<close>, computeIncluded
  returns the focused projects and every project within \<open>N\<close> reverse edges of one of them.
  On the working tree \<open>manifestChain\<close> with project-001 focused and hop bound 2 the code
  returns projects 001, 002 and 003 only: project-003 is first reached through 002 with no
  hops left, is then skipped as already included when 001 reaches it directly, and its
  dependent project-004, two reverse edges from 001, is never added.
\<close>

theorem computeIncluded_misses_dependent:
  "computeIncluded (reverseDepMap (buildMaps manifestChain)) [''project-001''] 2
     = [''project-001'', ''project-002'', ''project-003'']
   \<and> ''project-004'' \<in> set (withinHopsSpec (reverseDepMap (buildMaps manifestChain)) [''project-001''] 2)"
  unfolding chain_reverseDepMap by code_simp

text \<open>
  C2.  The claim: the result for hop bound \<open>h\<close> is a subset of the result for \<open>h + 1\<close>.
  On the working tree \<open>manifestDetour\<close> with project-001 focused, hop bound 2 includes
  project-005 and hop bound 3 does not: with one more hop project-004 is first reached at
  the end of the path 001, 002, 003, 004 with no hops left, and is not expanded again.
\<close>

theorem computeIncluded_not_monotone:
  "computeIncluded (reverseDepMap (buildMaps manifestDetour)) [''project-001''] 2
     = [''project-001'', ''project-002'', ''project-003'', ''project-004'', ''project-005'']
   \<and> computeIncluded (reverseDepMap (buildMaps manifestDetour)) [''project-001''] 3
     = [''project-001'', ''project-002'', ''project-003'', ''project-004'']"
  unfolding detour_reverseDepMap by code_simp

lemma fold_registry: "fold (\<lambda>i inc. set_add (projectName i) inc) [1..<101] [] = allProjects"
  by code_simp

lemma registry_facts:
  "length allProjects = 100 \<and> distinct allProjects
   \<and> hd allProjects = ''project-001'' \<and> last allProjects = ''project-100''"
  by code_simp

text \<open>
  C3.  With an empty focused set computeIncluded returns the whole registry, project-001
  to project-100, whatever the graph and the hop bound are.
\<close>

theorem computeIncluded_empty_focus:
  "computeIncluded rmap [] hops = allProjects"
  unfolding computeIncluded_def using fold_registry by simp

text \<open>The script under \<open>focus-ui\<close> returns the empty set for the same input.\<close>

lemma computeIncludedUi_empty_focus: "computeIncludedUi rmap [] hops = []"
  by (simp add: computeIncludedUi_def)

lemma addDependents_zero: "fst (addDependents rmap proj 0 (inc, vis)) = inc"
  by (simp add: Let_def)

lemma fold_seed_zero:
  "set (fold (\<lambda>proj inc. fst (addDependents rmap proj 0 (set_add proj inc, []))) focused acc)
     = set acc \<union> set focused"
  by (induction focused arbitrary: acc)
     (auto simp: addDependents_zero set_add_def simp del: addDependents.simps)

text \<open>
  C4, as the claim states it, fails for the empty focused set: hop bound 0 with nothing
  focused returns the whole registry, not the empty set.
\<close>

theorem computeIncluded_hop0_empty_counterexample:
  "set (computeIncluded [] [] 0) \<noteq> set []"
  unfolding computeIncluded_def using fold_registry registry_facts by auto

text \<open>
  C4, amended.  For every graph and every non-empty focused list, computeIncluded with hop
  bound 0 returns exactly the focused projects: no dependent is added.
\<close>

theorem computeIncluded_hop0:
  "focused \<noteq> [] \<Longrightarrow> set (computeIncluded rmap focused 0) = set focused"
  by (simp add: computeIncluded_def fold_seed_zero del: addDependents.simps)

theorem computeIncluded_hop0_witness:
  "[''project-001''] \<noteq> []
   \<and> set (computeIncluded [(''project-001'', [''project-002''])] [''project-001''] 0)
       = set [''project-001'']"
  using computeIncluded_hop0 [of "[''project-001'']" "[(''project-001'', [''project-002''])]"]
  by simp

subsection \<open>What the walk does guarantee\<close>

text \<open>For a non-empty selection the result lies between the focused projects and the
  projects within the hop bound; it is exact for hop bound 1.  The dependents it loses are
  two or more reverse edges away from every focused project.\<close>

lemma withinHopsSpec_mono: "set (withinHopsSpec rmap seeds n) \<subseteq> set (withinHopsSpec rmap seeds (n + k))"
  by (induction k) (auto simp: Let_def)

lemma withinHopsSpec_step:
  "p \<in> set (withinHopsSpec rmap seeds n) \<Longrightarrow> d \<in> set (dependentsOf rmap p)
   \<Longrightarrow> d \<in> set (withinHopsSpec rmap seeds (Suc n))"
  by (auto simp: Let_def)

lemma set_add_set: "set (set_add x xs) = insert x (set xs)"
  by (auto simp: set_add_def)

lemma addDependents_within:
  "proj \<in> set (withinHopsSpec rmap seeds k)
   \<Longrightarrow> set inc \<subseteq> set (withinHopsSpec rmap seeds (k + nat hops))
   \<Longrightarrow> set (fst (addDependents rmap proj hops (inc, vis)))
         \<subseteq> set (withinHopsSpec rmap seeds (k + nat hops))"
proof (induction rmap proj hops "(inc, vis)" arbitrary: inc vis k rule: addDependents.induct)
  case (1 rmap proj hops included visited)
  let ?R = "\<lambda>n. set (withinHopsSpec rmap seeds n)"
  show ?case
  proof (cases "hops < 0 \<or> set_has visited proj \<or> \<not> hops > 0")
    case True
    with "1.prems" show ?thesis by (auto simp: Let_def)
  next
    case False
    then have h: "0 < hops" "\<not> hops < 0" "\<not> set_has visited proj" by auto
    have n: "k + nat hops = Suc k + nat (hops - 1)"
      using h by (simp add: nat_diff_distrib')
    let ?step = "\<lambda>dep (inc, vis).
                        if \<not> set_has inc dep
                        then addDependents rmap dep (hops - 1) (set_add dep inc, vis)
                        else (inc, vis)"
    have "set (fst (fold ?step (dependentsOf rmap proj) (included, set_add proj visited)))
            \<subseteq> ?R (k + nat hops)"
    proof (rule fold_invariant [where Q = "\<lambda>dep. dep \<in> set (dependentsOf rmap proj)"
                                 and P = "\<lambda>s. set (fst s) \<subseteq> ?R (k + nat hops)"])
      show "set (fst (included, set_add proj visited)) \<subseteq> ?R (k + nat hops)"
        using "1.prems" by simp
    next
      fix dep and s :: "string list \<times> string list"
      assume d: "dep \<in> set (dependentsOf rmap proj)" and s: "set (fst s) \<subseteq> ?R (k + nat hops)"
      obtain i v where sv: "s = (i, v)" by (cases s)
      have dk: "dep \<in> ?R (Suc k)"
        using "1.prems"(1) d by (rule withinHopsSpec_step)
      show "set (fst (?step dep s)) \<subseteq> ?R (k + nat hops)"
      proof (cases "set_has i dep")
        case True
        with s sv show ?thesis by simp
      next
        case False
        have "?R (Suc k) \<subseteq> ?R (Suc k + nat (hops - 1))"
          by (rule withinHopsSpec_mono)
        with dk s sv have sub: "set (set_add dep i) \<subseteq> ?R (Suc k + nat (hops - 1))"
          by (auto simp: set_add_set n simp del: withinHopsSpec.simps)
        have g: "\<not> (hops < 0 \<or> set_has visited proj)"
          using h by simp
        have "set (fst (addDependents rmap dep (hops - 1) (set_add dep i, v)))
                \<subseteq> ?R (Suc k + nat (hops - 1))"
          by (rule "1.hyps" [where k = "Suc k", OF g refl refl h(1) d False dk sub])
        with False sv show ?thesis
          by (simp add: n del: addDependents.simps withinHopsSpec.simps)
      qed
    qed simp
    with h show ?thesis by (simp add: Let_def del: withinHopsSpec.simps)
  qed
qed


lemma addDependents_grows:
  "set inc \<subseteq> set (fst (addDependents rmap proj hops (inc, vis)))"
proof (induction rmap proj hops "(inc, vis)" arbitrary: inc vis rule: addDependents.induct)
  case (1 rmap proj hops included visited)
  show ?case
  proof (cases "hops < 0 \<or> set_has visited proj \<or> \<not> hops > 0")
    case True
    then show ?thesis by (auto simp: Let_def)
  next
    case False
    then have h: "0 < hops" "\<not> hops < 0" "\<not> set_has visited proj" by auto
    have g: "\<not> (hops < 0 \<or> set_has visited proj)"
      using h by simp
    let ?step = "\<lambda>dep (inc, vis).
                        if \<not> set_has inc dep
                        then addDependents rmap dep (hops - 1) (set_add dep inc, vis)
                        else (inc, vis)"
    have "set included
            \<subseteq> set (fst (fold ?step (dependentsOf rmap proj) (included, set_add proj visited)))"
    proof (rule fold_invariant [where Q = "\<lambda>dep. dep \<in> set (dependentsOf rmap proj)"
                                 and P = "\<lambda>s. set included \<subseteq> set (fst s)"])
      show "set included \<subseteq> set (fst (included, set_add proj visited))"
        by simp
    next
      fix dep and s :: "string list \<times> string list"
      assume d: "dep \<in> set (dependentsOf rmap proj)" and s: "set included \<subseteq> set (fst s)"
      obtain i v where sv: "s = (i, v)" by (cases s)
      show "set included \<subseteq> set (fst (?step dep s))"
      proof (cases "set_has i dep")
        case True
        with s sv show ?thesis by simp
      next
        case False
        have "set (set_add dep i)
                \<subseteq> set (fst (addDependents rmap dep (hops - 1) (set_add dep i, v)))"
          by (rule "1.hyps" [OF g refl refl h(1) d False])
        with s sv False show ?thesis
          by (auto simp: set_add_set simp del: addDependents.simps)
      qed
    qed simp
    with h show ?thesis by (simp add: Let_def)
  qed
qed

lemma computeIncluded_fold_within:
  "set seeds' \<subseteq> set seeds \<Longrightarrow> set acc \<subseteq> set (withinHopsSpec rmap seeds (nat hops))
   \<Longrightarrow> set (fold (\<lambda>proj inc. fst (addDependents rmap proj hops (set_add proj inc, []))) seeds' acc)
         \<subseteq> set (withinHopsSpec rmap seeds (nat hops))"
proof (induction seeds' arbitrary: acc)
  case Nil
  then show ?case by simp
next
  case (Cons p ps)
  have p0: "p \<in> set (withinHopsSpec rmap seeds 0)"
    using Cons.prems by simp
  have "set (withinHopsSpec rmap seeds 0) \<subseteq> set (withinHopsSpec rmap seeds (0 + nat hops))"
    by (rule withinHopsSpec_mono)
  with p0 Cons.prems have "set (set_add p acc) \<subseteq> set (withinHopsSpec rmap seeds (0 + nat hops))"
    by (auto simp: set_add_set simp del: withinHopsSpec.simps)
  with p0 have "set (fst (addDependents rmap p hops (set_add p acc, [])))
                  \<subseteq> set (withinHopsSpec rmap seeds (0 + nat hops))"
    by (rule addDependents_within)
  with Cons show ?case
    by (simp del: addDependents.simps withinHopsSpec.simps)
qed

lemma computeIncluded_fold_seeds:
  "set acc \<union> set seeds'
     \<subseteq> set (fold (\<lambda>proj inc. fst (addDependents rmap proj hops (set_add proj inc, []))) seeds' acc)"
proof (induction seeds' arbitrary: acc)
  case Nil
  then show ?case by simp
next
  case (Cons p ps)
  have "set (set_add p acc) \<subseteq> set (fst (addDependents rmap p hops (set_add p acc, [])))"
    by (rule addDependents_grows)
  with Cons [of "fst (addDependents rmap p hops (set_add p acc, []))"] show ?case
    by (auto simp: set_add_set simp del: addDependents.simps)
qed

lemma computeIncluded_within_hops:
  "focused \<noteq> [] \<Longrightarrow>
   set focused \<subseteq> set (computeIncluded rmap focused hops)
   \<and> set (computeIncluded rmap focused hops) \<subseteq> set (withinHopsSpec rmap focused (nat hops))"
  using computeIncluded_fold_seeds [of "[]" focused rmap hops]
    computeIncluded_fold_within [of focused focused "[]" rmap hops]
  by (simp add: computeIncluded_def del: addDependents.simps withinHopsSpec.simps)


lemma addDependents_one_step:
  "set (fst (fold (\<lambda>dep (inc, vis).
                     if \<not> set_has inc dep
                     then addDependents rmap dep 0 (set_add dep inc, vis)
                     else (inc, vis)) deps (inc, vis)))
     = set inc \<union> set deps"
proof (induction deps arbitrary: inc vis)
  case Nil
  then show ?case by simp
next
  case (Cons d ds)
  show ?case
  proof (cases "set_has inc d")
    case True
    with Cons [of inc vis] show ?thesis by (auto simp: set_has_def)
  next
    case False
    obtain i v where r: "addDependents rmap d 0 (set_add d inc, vis) = (i, v)"
      by (cases "addDependents rmap d 0 (set_add d inc, vis)")
    have i: "i = set_add d inc"
      using addDependents_zero [of rmap d "set_add d inc" vis] by (simp only: r fst_conv)
    from False Cons [of i v] show ?thesis
      by (simp add: r del: addDependents.simps) (auto simp: i set_add_set)
  qed
qed

lemma addDependents_one_step':
  assumes "h = 0"
  shows "set (fst (fold (\<lambda>dep (inc, vis).
                     if \<not> set_has inc dep
                     then addDependents rmap dep h (set_add dep inc, vis)
                     else (inc, vis)) deps (inc, vis)))
     = set inc \<union> set deps"
  unfolding assms by (rule addDependents_one_step)

lemma set_has_Nil: "\<not> set_has [] x"
  by (simp add: set_has_def)

lemma addDependents_one:
  "set (fst (addDependents rmap proj 1 (inc, []))) = set inc \<union> set (dependentsOf rmap proj)"
  using addDependents_one_step' [of "1 - 1" rmap "dependentsOf rmap proj" inc "set_add proj []"]
  by (simp add: Let_def set_has_Nil)

lemma computeIncluded_fold_one:
  "set (fold (\<lambda>proj inc. fst (addDependents rmap proj 1 (set_add proj inc, []))) seeds acc)
     = set acc \<union> set seeds \<union> (\<Union>p \<in> set seeds. set (dependentsOf rmap p))"
  by (induction seeds arbitrary: acc)
     (auto simp: addDependents_one set_add_set simp del: addDependents.simps)

lemma computeIncluded_one_hop:
  "focused \<noteq> [] \<Longrightarrow>
   set (computeIncluded rmap focused 1) = set (withinHopsSpec rmap focused (Suc 0))"
  by (auto simp: computeIncluded_def computeIncluded_fold_one Let_def simp del: addDependents.simps)

section \<open>Properties of buildGraph\<close>





















section \<open>Properties of checkGitChanges\<close>










section \<open>Properties of readConfig\<close>


























section \<open>Saving and loading the configuration\<close>




































end
